theory Spec2Isabelle
  imports Main
begin

section \<open>The ingestion job (ingest.py)\<close>

text \<open>
  The script is a straight-line batch job: it loads the hash ledger from
  \<^verbatim>\<open>hashes.json\<close>, walks the data directory, splits each file into chunks, marks the
  chunks whose digest is not yet a key of the ledger, hands the marked chunks to the
  vector store in one call and finally rewrites \<^verbatim>\<open>hashes.json\<close>. Nothing in the script
  catches an exception, so a raise anywhere ends the run at that line.

  The digest (\<^verbatim>\<open>hashlib.md5(...).hexdigest()\<close>) and the text splitter
  (\<^verbatim>\<open>RecursiveCharacterTextSplitter(chunk_size=500, chunk_overlap=50)\<close>) are library
  functions; the model takes them as the parameters \<open>md5hex\<close> and \<open>split_text\<close>.
  A failed read surfaces as an exception of \<^verbatim>\<open>loader.load()\<close>, a failed store write as
  an exception of \<^verbatim>\<open>add_documents\<close>, whose return value the script never looks at.
  The ledger file is taken to hold what \<^verbatim>\<open>json.dump\<close> wrote into it, and the start-up
  of the clients (lines 27 to 52) is taken to succeed.
\<close>

subsection \<open>Data\<close>

text \<open>A langchain document: its text and the \<^verbatim>\<open>metadata["source"]\<close> entry.\<close>

record document =
  page_content :: string
  source :: string

text \<open>\<^verbatim>\<open>hash_db\<close>: a dict from hex digest to filename.\<close>

type_synonym ledger = "string \<rightharpoonup> string"

text \<open>
  What \<^verbatim>\<open>os.listdir\<close> yields for one name: something that is not a regular file,
  a file that \<^verbatim>\<open>TextLoader.load\<close> fails to read (it raises), or a file with its text.
\<close>

datatype dir_entry = NotAFile | Unreadable | TextFile string

datatype ingest_error = LoadError | StoreError

text \<open>
  The persistent world of the job: the ledger file (\<open>None\<close> when \<^verbatim>\<open>hashes.json\<close>
  does not exist) and the records of the Qdrant collection.
\<close>

record world =
  hashes_json :: "ledger option"
  collection :: "document list"

text \<open>
  How the vector store answers the one \<^verbatim>\<open>add_documents\<close> call of a run: it stores the
  whole batch, or it raises after having stored the first \<open>k\<close> documents of it.
\<close>

datatype store_reply = Accepted | Failed nat

text \<open>
  What a run leaves behind: the world after it, the batches it handed to
  \<^verbatim>\<open>add_documents\<close>, and either the error that ended it or the count it prints.
\<close>

record run_report =
  after :: world
  batches :: "document list list"
  outcome :: "ingest_error + nat"

subsection \<open>Operations\<close>

text \<open>Lines 20 to 25: the ledger the run starts from.\<close>

definition load_hash_db :: "world \<Rightarrow> ledger" where
  "load_hash_db w = (case hashes_json w of Some db \<Rightarrow> db | None \<Rightarrow> Map.empty)"

text \<open>
  \<^verbatim>\<open>splitter.split_documents(docs)\<close>: every document is cut by \<open>split_text\<close>, each
  piece keeping the metadata of the document it comes from.
\<close>

definition split_documents :: "(string \<Rightarrow> string list) \<Rightarrow> document list \<Rightarrow> document list" where
  "split_documents split_text docs =
     concat (map (\<lambda>d. map (\<lambda>t. \<lparr>page_content = t, source = source d\<rparr>)
                          (split_text (page_content d))) docs)"

text \<open>Lines 61 to 70 for a readable file: load, set the source, split.\<close>

definition file_chunks :: "(string \<Rightarrow> string list) \<Rightarrow> string \<Rightarrow> string \<Rightarrow> document list" where
  "file_chunks split_text filename text =
     split_documents split_text [\<lparr>page_content = text, source = filename\<rparr>]"

text \<open>Line 75: the digest of a chunk is computed from its text alone.\<close>

definition chunk_hash :: "(string \<Rightarrow> string) \<Rightarrow> document \<Rightarrow> string" where
  "chunk_hash md5hex c = md5hex (page_content c)"

text \<open>
  Lines 73 to 78, the loop over the chunks of one file. It threads \<^verbatim>\<open>hash_db\<close>
  and \<^verbatim>\<open>new_chunks\<close>.
\<close>

fun mark_new ::
  "(string \<Rightarrow> string) \<Rightarrow> string \<Rightarrow> document list \<Rightarrow> ledger \<Rightarrow> document list
     \<Rightarrow> ledger \<times> document list" where
  "mark_new md5hex filename [] hash_db new_chunks = (hash_db, new_chunks)"
| "mark_new md5hex filename (c # cs) hash_db new_chunks =
     (let h = chunk_hash md5hex c in
      if hash_db h = None
      then mark_new md5hex filename cs (hash_db(h \<mapsto> filename)) (new_chunks @ [c])
      else mark_new md5hex filename cs hash_db new_chunks)"

text \<open>
  Lines 55 to 80, the loop over the directory. It threads \<^verbatim>\<open>hash_db\<close> and
  \<^verbatim>\<open>all_docs\<close>; a file that cannot be read raises out of the loop.
\<close>

fun scan_files ::
  "(string \<Rightarrow> string) \<Rightarrow> (string \<Rightarrow> string list) \<Rightarrow> (string \<times> dir_entry) list
     \<Rightarrow> ledger \<Rightarrow> document list \<Rightarrow> ingest_error + ledger \<times> document list" where
  "scan_files md5hex split_text [] hash_db all_docs = Inr (hash_db, all_docs)"
| "scan_files md5hex split_text ((filename, entry) # rest) hash_db all_docs =
     (case entry of
        NotAFile \<Rightarrow> scan_files md5hex split_text rest hash_db all_docs
      | Unreadable \<Rightarrow> Inl LoadError
      | TextFile text \<Rightarrow>
          (let chunks = file_chunks split_text filename text;
               (hash_db', new_chunks) = mark_new md5hex filename chunks hash_db []
           in scan_files md5hex split_text rest hash_db' (all_docs @ new_chunks)))"

text \<open>
  \<^verbatim>\<open>vectorstore.add_documents(all_docs)\<close>: the records of the collection afterwards,
  and whether the call returned (\<open>True\<close>) or raised.
\<close>

definition add_documents :: "store_reply \<Rightarrow> document list \<Rightarrow> document list \<Rightarrow> document list \<times> bool" where
  "add_documents reply points docs =
     (case reply of
        Accepted \<Rightarrow> (points @ docs, True)
      | Failed k \<Rightarrow> (points @ take k docs, False))"

text \<open>
  The whole script. The ledger file is written at lines 90 and 91 only, after the
  store call has returned.
\<close>

definition ingest ::
  "(string \<Rightarrow> string) \<Rightarrow> (string \<Rightarrow> string list) \<Rightarrow> store_reply
     \<Rightarrow> (string \<times> dir_entry) list \<Rightarrow> world \<Rightarrow> run_report" where
  "ingest md5hex split_text reply listing w =
     (case scan_files md5hex split_text listing (load_hash_db w) [] of
        Inl e \<Rightarrow> \<lparr>after = w, batches = [], outcome = Inl e\<rparr>
      | Inr (hash_db, all_docs) \<Rightarrow>
          if all_docs \<noteq> [] then
            (case add_documents reply (collection w) all_docs of
               (points, False) \<Rightarrow>
                 \<lparr>after = w\<lparr>collection := points\<rparr>, batches = [all_docs],
                  outcome = Inl StoreError\<rparr>
             | (points, True) \<Rightarrow>
                 \<lparr>after = \<lparr>hashes_json = Some hash_db, collection = points\<rparr>,
                  batches = [all_docs], outcome = Inr (length all_docs)\<rparr>)
          else \<lparr>after = w\<lparr>hashes_json := Some hash_db\<rparr>, batches = [],
                outcome = Inr 0\<rparr>)"

subsection \<open>The chunks of a run, in the order the loops meet them\<close>

text \<open>
  Lines 56 to 70 without the ledger check: the chunks of every readable file, file
  after file. Positions in this list are what ``earlier'' and ``later'' mean for
  two chunks of one run.
\<close>

fun all_chunks :: "(string \<Rightarrow> string list) \<Rightarrow> (string \<times> dir_entry) list \<Rightarrow> document list" where
  "all_chunks split_text [] = []"
| "all_chunks split_text ((filename, entry) # rest) =
     (case entry of TextFile text \<Rightarrow> file_chunks split_text filename text | _ \<Rightarrow> [])
     @ all_chunks split_text rest"

abbreviation hashes :: "(string \<Rightarrow> string) \<Rightarrow> document list \<Rightarrow> string set" where
  "hashes md5hex cs \<equiv> chunk_hash md5hex ` set cs"

text \<open>
  The chunks of a list whose digest is neither in the key set \<open>K\<close> nor the digest
  of an earlier chunk of the list. It is used in the proofs only, as the closed form
  of what the two loops collect.
\<close>

fun unseen :: "(string \<Rightarrow> string) \<Rightarrow> string set \<Rightarrow> document list \<Rightarrow> document list" where
  "unseen md5hex K [] = []"
| "unseen md5hex K (c # cs) =
     (if chunk_hash md5hex c \<in> K then unseen md5hex K cs
      else c # unseen md5hex (insert (chunk_hash md5hex c) K) cs)"

section \<open>The query service (api.py)\<close>

text \<open>
  One route, \<^verbatim>\<open>GET /query\<close>, whose handler runs the chain
  \<^verbatim>\<open>RunnableParallel({"context": retriever, "question": RunnablePassthrough()}) | prompt | llm\<close>.
  The retriever, the language model and Python's rendering of the retrieved documents
  inside the prompt are collaborators; the model takes them as a record of functions
  and logs every call made to the first two.
\<close>

type_synonym kwargs = "(string \<times> nat) list"

datatype api_error = RetrievalError | GenerationError

datatype api_event = Search string | Generate string kwargs

record backends =
  retriever :: "string \<Rightarrow> api_error + document list"
  str_docs :: "document list \<Rightarrow> string"
  llm :: "string \<Rightarrow> kwargs \<Rightarrow> api_error + string"

text \<open>
  Lines 30 to 32, the template filled in. The text is UTF-8: the accented letter of
  the last line is the two bytes C3 A9.
\<close>

definition prompt_format :: "string \<Rightarrow> string \<Rightarrow> string" where
  "prompt_format ctx question =
     ''Voici des extraits pertinents :'' @ [CHR 0x0A] @ ctx @ [CHR 0x0A, CHR 0x0A]
     @ ''Question : '' @ question @ [CHR 0x0A]
     @ ''R'' @ [CHR 0xC3, CHR 0xA9] @ ''ponse :''"

text \<open>
  \<^verbatim>\<open>rag_chain.invoke(input, **kw)\<close>, lines 35 to 39. A sequence hands the keyword
  arguments of \<^verbatim>\<open>invoke\<close> to its first step only, here the
  \<^verbatim>\<open>RunnableParallel\<close>, which accepts and ignores them; the prompt and the model
  are invoked with the previous step's output and nothing else. The model itself is
  built at lines 26 to 28 with a model name and no other option.
\<close>

definition rag_chain_invoke ::
  "backends \<Rightarrow> string \<Rightarrow> kwargs \<Rightarrow> api_event list \<times> (api_error + string)" where
  "rag_chain_invoke B input kw =
     (case retriever B input of
        Inl e \<Rightarrow> ([Search input], Inl e)
      | Inr docs \<Rightarrow>
          (let p = prompt_format (str_docs B docs) input in
           case llm B p [] of
             Inl e \<Rightarrow> ([Search input, Generate p []], Inl e)
           | Inr text \<Rightarrow> ([Search input, Generate p []], Inr text)))"

text \<open>Lines 43 to 45, the handler: the dict it returns, or the exception it lets through.\<close>

definition query_api ::
  "backends \<Rightarrow> string \<Rightarrow> api_event list \<times> (api_error + (string \<times> string) list)" where
  "query_api B q =
     (case rag_chain_invoke B q [(''max_tokens'', 200)] of
        (evs, Inl e) \<Rightarrow> (evs, Inl e)
      | (evs, Inr response) \<Rightarrow> (evs, Inr [(''question'', q), (''response'', response)]))"

datatype http_response =
    Ok200 "(string \<times> string) list"
  | Unprocessable422
  | ServerError500

text \<open>
  Line 42 and the parameter declaration \<^verbatim>\<open>q: str = Query(...)\<close> of line 43: the
  parameter is required and has no other constraint, so a request without \<open>q\<close> is
  answered 422 before the handler runs, and every request with a \<open>q\<close>, whatever its
  text, reaches the handler. An exception out of the handler is answered 500.
\<close>

definition get_query :: "backends \<Rightarrow> string option \<Rightarrow> api_event list \<times> http_response" where
  "get_query B q_param =
     (case q_param of
        None \<Rightarrow> ([], Unprocessable422)
      | Some q \<Rightarrow>
          (case query_api B q of
             (evs, Inl e) \<Rightarrow> (evs, ServerError500)
           | (evs, Inr body) \<Rightarrow> (evs, Ok200 body)))"

section \<open>Sample collaborators and inputs\<close>

text \<open>
  Stand-ins for the library functions, used only to evaluate the model on concrete
  inputs: a digest that is the text itself, a splitter that cuts at spaces, a store
  and a model that always answer. Every general theorem below holds for all digests,
  splitters and backends.
\<close>

definition sample_md5hex :: "string \<Rightarrow> string" where
  "sample_md5hex t = t"

fun split_acc :: "string \<Rightarrow> string \<Rightarrow> string list" where
  "split_acc cur [] = (if cur = [] then [] else [cur])"
| "split_acc cur (c # cs) =
     (if c = CHR '' '' then (if cur = [] then [] else [cur]) @ split_acc [] cs
      else split_acc (cur @ [c]) cs)"

definition sample_split :: "string \<Rightarrow> string list" where
  "sample_split t = split_acc [] t"

definition empty_world :: world where
  "empty_world = \<lparr>hashes_json = None, collection = []\<rparr>"

definition sample_listing :: "(string \<times> dir_entry) list" where
  "sample_listing =
     [(''a.txt'', TextFile ''hello world''), (''sub'', NotAFile),
      (''b.txt'', TextFile ''hello there'')]"

definition sample_backends :: backends where
  "sample_backends =
     \<lparr>retriever = (\<lambda>q. Inr [\<lparr>page_content = ''hello world'', source = ''a.txt''\<rparr>]),
      str_docs = (\<lambda>ds. concat (map page_content ds)),
      llm = (\<lambda>p kw. Inr ''bonjour'')\<rparr>"

text \<open>
  A world left by an earlier run over a file \<^verbatim>\<open>old.txt\<close> that has since gone, a
  directory with two files of the same text, and a directory whose first file cannot
  be read.
\<close>

definition old_world :: world where
  "old_world =
     \<lparr>hashes_json = Some [''hello'' \<mapsto> ''old.txt''],
      collection = [\<lparr>page_content = ''hello'', source = ''old.txt''\<rparr>]\<rparr>"


definition broken_listing :: "(string \<times> dir_entry) list" where
  "broken_listing = [(''bad.txt'', Unreadable), (''a.txt'', TextFile ''hello world'')]"

section \<open>Lemmas about the two ingestion loops\<close>

lemma mark_new_Cons_new:
  "L (chunk_hash h c) = None \<Longrightarrow>
     mark_new h f (c # cs) L N = mark_new h f cs (L(chunk_hash h c \<mapsto> f)) (N @ [c])"
  by (simp add: Let_def)

lemma mark_new_Cons_old:
  "L (chunk_hash h c) \<noteq> None \<Longrightarrow> mark_new h f (c # cs) L N = mark_new h f cs L N"
  by (cases "L (chunk_hash h c)") (simp_all add: Let_def)

lemma mark_new_acc:
  "snd (mark_new h f cs L N) = N @ snd (mark_new h f cs L [])"
proof (induction cs arbitrary: L N)
  case Nil show ?case by simp
next
  case (Cons c cs)
  show ?case
  proof (cases "L (chunk_hash h c) = None")
    case True
    let ?L = "L(chunk_hash h c \<mapsto> f)"
    have "snd (mark_new h f (c # cs) L N) = (N @ [c]) @ snd (mark_new h f cs ?L [])"
      unfolding mark_new_Cons_new[of L h c, OF True] by (rule Cons.IH)
    moreover have "snd (mark_new h f cs ?L ([] @ [c])) = ([] @ [c]) @ snd (mark_new h f cs ?L [])"
      by (rule Cons.IH)
    then have "snd (mark_new h f (c # cs) L []) = [c] @ snd (mark_new h f cs ?L [])"
      unfolding mark_new_Cons_new[of L h c, OF True] by simp
    ultimately show ?thesis by simp
  next
    case False
    show ?thesis unfolding mark_new_Cons_old[of L h c, OF False] by (rule Cons.IH)
  qed
qed

lemma mark_new_unseen:
  "snd (mark_new h f cs L []) = unseen h (dom L) cs"
proof (induction cs arbitrary: L)
  case Nil show ?case by simp
next
  case (Cons c cs)
  show ?case
  proof (cases "L (chunk_hash h c) = None")
    case True
    let ?L = "L(chunk_hash h c \<mapsto> f)"
    have notin: "chunk_hash h c \<notin> dom L" using True by (simp add: domIff)
    have "snd (mark_new h f (c # cs) L []) = [c] @ snd (mark_new h f cs ?L [])"
      unfolding mark_new_Cons_new[of L h c, OF True] by (simp add: mark_new_acc[of h f cs ?L "[c]"])
    also have "\<dots> = [c] @ unseen h (dom ?L) cs" by (simp only: Cons.IH)
    also have "dom ?L = insert (chunk_hash h c) (dom L)" by simp
    finally show ?thesis using notin by simp
  next
    case False
    have isin: "chunk_hash h c \<in> dom L" using False by (simp add: domIff)
    show ?thesis unfolding mark_new_Cons_old[of L h c, OF False] using isin Cons.IH[of L] by simp
  qed
qed

lemma mark_new_dom:
  "dom (fst (mark_new h f cs L N)) = dom L \<union> chunk_hash h ` set cs"
proof (induction cs arbitrary: L N)
  case Nil show ?case by simp
next
  case (Cons c cs)
  show ?case
  proof (cases "L (chunk_hash h c) = None")
    case True
    show ?thesis unfolding mark_new_Cons_new[of L h c, OF True] Cons.IH by auto
  next
    case False
    have isin: "chunk_hash h c \<in> dom L" using False by (simp add: domIff)
    show ?thesis unfolding mark_new_Cons_old[of L h c, OF False] Cons.IH using isin by auto
  qed
qed

lemma mark_new_le: "L \<subseteq>\<^sub>m fst (mark_new h f cs L N)"
proof (induction cs arbitrary: L N)
  case Nil show ?case by simp
next
  case (Cons c cs)
  show ?case
  proof (cases "L (chunk_hash h c) = None")
    case True
    have "L \<subseteq>\<^sub>m L(chunk_hash h c \<mapsto> f)"
      using True by (auto simp: map_le_def)
    then show ?thesis
      unfolding mark_new_Cons_new[of L h c, OF True]
      using Cons.IH[of "L(chunk_hash h c \<mapsto> f)" "N @ [c]"]
      by (rule map_le_trans)
  next
    case False
    show ?thesis unfolding mark_new_Cons_old[of L h c, OF False] by (rule Cons.IH)
  qed
qed

lemma mark_new_entries:
  "fst (mark_new h f cs L N) k = Some v \<Longrightarrow>
     L k = Some v \<or> (v = f \<and> (\<exists>c \<in> set (snd (mark_new h f cs L [])). chunk_hash h c = k))"
proof (induction cs arbitrary: L N)
  case Nil then show ?case by simp
next
  case (Cons c cs)
  show ?case
  proof (cases "L (chunk_hash h c) = None")
    case True
    let ?L = "L(chunk_hash h c \<mapsto> f)"
    have *: "snd (mark_new h f (c # cs) L []) = c # snd (mark_new h f cs ?L [])"
      unfolding mark_new_Cons_new[of L h c, OF True] by (simp add: mark_new_acc[of h f cs ?L "[c]"])
    from Cons.prems have "fst (mark_new h f cs ?L (N @ [c])) k = Some v"
      unfolding mark_new_Cons_new[of L h c, OF True] .
    from Cons.IH[OF this]
    have "?L k = Some v \<or> (v = f \<and> (\<exists>c \<in> set (snd (mark_new h f cs ?L [])). chunk_hash h c = k))" .
    then show ?thesis unfolding *
      by (cases "k = chunk_hash h c") auto
  next
    case False
    from Cons.prems have "fst (mark_new h f cs L N) k = Some v"
      unfolding mark_new_Cons_old[of L h c, OF False] .
    from Cons.IH[OF this] show ?thesis unfolding mark_new_Cons_old[of L h c, OF False] .
  qed
qed

lemma mark_new_known:
  "chunk_hash h ` set cs \<subseteq> dom L \<Longrightarrow> mark_new h f cs L N = (L, N)"
proof (induction cs arbitrary: L N)
  case Nil show ?case by simp
next
  case (Cons c cs)
  from Cons.prems have "L (chunk_hash h c) \<noteq> None" by (auto simp: domIff)
  then show ?case using Cons by (simp add: mark_new_Cons_old del: mark_new.simps)
qed


lemma file_chunks_source: "c \<in> set (file_chunks s f t) \<Longrightarrow> source c = f"
  by (auto simp: file_chunks_def split_documents_def)


lemma scan_NotAFile:
  "scan_files h s ((f, NotAFile) # r) L A = scan_files h s r L A"
  by simp

lemma scan_Unreadable:
  "scan_files h s ((f, Unreadable) # r) L A = Inl LoadError"
  by simp

lemma scan_TextFile:
  "scan_files h s ((f, TextFile t) # r) L A =
     scan_files h s r (fst (mark_new h f (file_chunks s f t) L []))
       (A @ snd (mark_new h f (file_chunks s f t) L []))"
  by (simp add: case_prod_beta Let_def)

lemma unseen_append:
  "unseen h K (xs @ ys) = unseen h K xs @ unseen h (K \<union> hashes h xs) ys"
proof (induction xs arbitrary: K)
  case Nil show ?case by simp
next
  case (Cons a xs)
  show ?case
  proof (cases "chunk_hash h a \<in> K")
    case True
    then have "insert (chunk_hash h a) (K \<union> hashes h xs) = K \<union> hashes h xs" by auto
    then show ?thesis using True Cons.IH[of K] by simp
  next
    case False
    then show ?thesis using Cons.IH[of "insert (chunk_hash h a) K"] by simp
  qed
qed

lemma unseen_known: "hashes h cs \<subseteq> K \<Longrightarrow> unseen h K cs = []"
  by (induction cs arbitrary: K) auto

lemma unseen_subset: "set (unseen h K cs) \<subseteq> set cs"
  by (induction cs arbitrary: K) auto


lemma scan_files_unreadable:
  "(f, Unreadable) \<in> set xs \<Longrightarrow> scan_files h s xs L A = Inl LoadError"
proof (induction xs arbitrary: L A)
  case Nil then show ?case by simp
next
  case (Cons x xs)
  obtain g e where x: "x = (g, e)" by (cases x)
  show ?case
  proof (cases e)
    case NotAFile
    with Cons.prems x have "(f, Unreadable) \<in> set xs" by auto
    then show ?thesis unfolding x NotAFile scan_NotAFile by (rule Cons.IH)
  next
    case Unreadable
    show ?thesis unfolding x Unreadable by (rule scan_Unreadable)
  next
    case (TextFile t)
    with Cons.prems x have "(f, Unreadable) \<in> set xs" by auto
    then show ?thesis unfolding x TextFile scan_TextFile by (rule Cons.IH)
  qed
qed

lemma scan_files_readable:
  "\<forall>f. (f, Unreadable) \<notin> set xs \<Longrightarrow> \<exists>L' A'. scan_files h s xs L A = Inr (L', A')"
proof (induction xs arbitrary: L A)
  case Nil show ?case by simp
next
  case (Cons x xs)
  obtain g e where x: "x = (g, e)" by (cases x)
  from Cons.prems have rest: "\<forall>f. (f, Unreadable) \<notin> set xs" by auto
  show ?case
  proof (cases e)
    case NotAFile
    show ?thesis unfolding x NotAFile scan_NotAFile using rest by (rule Cons.IH)
  next
    case Unreadable
    with Cons.prems x show ?thesis by auto
  next
    case (TextFile t)
    show ?thesis unfolding x TextFile scan_TextFile using rest by (rule Cons.IH)
  qed
qed

lemma scan_files_docs:
  "scan_files h s xs L A = Inr (L', A') \<Longrightarrow>
     A' = A @ unseen h (dom L) (all_chunks s xs) \<and> dom L' = dom L \<union> hashes h (all_chunks s xs)
     \<and> L \<subseteq>\<^sub>m L'"
proof (induction xs arbitrary: L A)
  case Nil then show ?case by simp
next
  case (Cons x xs)
  obtain g e where x: "x = (g, e)" by (cases x)
  show ?case
  proof (cases e)
    case NotAFile
    from Cons.prems have "scan_files h s xs L A = Inr (L', A')"
      unfolding x NotAFile scan_NotAFile .
    from Cons.IH[OF this] show ?thesis unfolding x NotAFile by simp
  next
    case Unreadable
    with Cons.prems x show ?thesis by simp
  next
    case (TextFile t)
    let ?cs = "file_chunks s g t"
    let ?L1 = "fst (mark_new h g ?cs L [])"
    let ?N = "snd (mark_new h g ?cs L [])"
    from Cons.prems have "scan_files h s xs ?L1 (A @ ?N) = Inr (L', A')"
      unfolding x TextFile scan_TextFile .
    from Cons.IH[OF this]
    have 1: "A' = (A @ ?N) @ unseen h (dom ?L1) (all_chunks s xs)"
      and 2: "dom L' = dom ?L1 \<union> hashes h (all_chunks s xs)"
      and 3: "?L1 \<subseteq>\<^sub>m L'" by blast+
    have N: "?N = unseen h (dom L) ?cs" by (rule mark_new_unseen)
    have D: "dom ?L1 = dom L \<union> hashes h ?cs" by (rule mark_new_dom)
    have chunks: "all_chunks s (x # xs) = ?cs @ all_chunks s xs"
      unfolding x TextFile by simp
    have "A' = A @ unseen h (dom L) (all_chunks s (x # xs))"
      unfolding chunks unseen_append 1 N D by simp
    moreover have "dom L' = dom L \<union> hashes h (all_chunks s (x # xs))"
      unfolding chunks 2 D by auto
    moreover have "L \<subseteq>\<^sub>m L'"
      using mark_new_le 3 by (rule map_le_trans)
    ultimately show ?thesis by blast
  qed
qed

lemma scan_files_known:
  "hashes h (all_chunks s xs) \<subseteq> dom L \<Longrightarrow> \<forall>f. (f, Unreadable) \<notin> set xs
     \<Longrightarrow> scan_files h s xs L A = Inr (L, A)"
proof (induction xs arbitrary: A)
  case Nil show ?case by simp
next
  case (Cons x xs)
  obtain g e where x: "x = (g, e)" by (cases x)
  from Cons.prems have rest: "\<forall>f. (f, Unreadable) \<notin> set xs" by auto
  show ?case
  proof (cases e)
    case NotAFile
    from Cons.prems(1) have "hashes h (all_chunks s xs) \<subseteq> dom L" unfolding x NotAFile by simp
    then show ?thesis unfolding x NotAFile scan_NotAFile using rest by (rule Cons.IH)
  next
    case Unreadable
    with Cons.prems x show ?thesis by auto
  next
    case (TextFile t)
    from Cons.prems(1) have a: "hashes h (file_chunks s g t) \<subseteq> dom L"
      and b: "hashes h (all_chunks s xs) \<subseteq> dom L" unfolding x TextFile by auto
    have m: "mark_new h g (file_chunks s g t) L [] = (L, [])" using a by (rule mark_new_known)
    show ?thesis unfolding x TextFile scan_TextFile m using Cons.IH[OF b rest] by simp
  qed
qed

lemma scan_files_entries:
  "scan_files h s xs L A = Inr (L', A') \<Longrightarrow> L' k = Some v \<Longrightarrow>
     L k = Some v \<or>
     (\<exists>c \<in> set (unseen h (dom L) (all_chunks s xs)). chunk_hash h c = k \<and> source c = v)"
proof (induction xs arbitrary: L A)
  case Nil then show ?case by simp
next
  case (Cons x xs)
  obtain g e where x: "x = (g, e)" by (cases x)
  show ?case
  proof (cases e)
    case NotAFile
    from Cons.prems(1) have "scan_files h s xs L A = Inr (L', A')"
      unfolding x NotAFile scan_NotAFile .
    from Cons.IH[OF this Cons.prems(2)] show ?thesis unfolding x NotAFile by simp
  next
    case Unreadable
    with Cons.prems x show ?thesis by simp
  next
    case (TextFile t)
    let ?cs = "file_chunks s g t"
    let ?L1 = "fst (mark_new h g ?cs L [])"
    let ?N = "snd (mark_new h g ?cs L [])"
    from Cons.prems(1) have "scan_files h s xs ?L1 (A @ ?N) = Inr (L', A')"
      unfolding x TextFile scan_TextFile .
    from Cons.IH[OF this Cons.prems(2)]
    have alt: "?L1 k = Some v \<or>
       (\<exists>c \<in> set (unseen h (dom ?L1) (all_chunks s xs)). chunk_hash h c = k \<and> source c = v)" .
    have N: "?N = unseen h (dom L) ?cs" by (rule mark_new_unseen)
    have D: "dom ?L1 = dom L \<union> hashes h ?cs" by (rule mark_new_dom)
    have chunks: "all_chunks s (x # xs) = ?cs @ all_chunks s xs"
      unfolding x TextFile by simp
    have fr: "unseen h (dom L) (all_chunks s (x # xs)) = ?N @ unseen h (dom ?L1) (all_chunks s xs)"
      unfolding chunks unseen_append N D ..
    from alt show ?thesis
    proof
      assume "?L1 k = Some v"
      from mark_new_entries[OF this]
      have "L k = Some v \<or> (v = g \<and> (\<exists>c \<in> set ?N. chunk_hash h c = k))" .
      then show ?thesis
      proof
        assume "L k = Some v" then show ?thesis ..
      next
        assume "v = g \<and> (\<exists>c \<in> set ?N. chunk_hash h c = k)"
        then obtain c where c: "c \<in> set ?N" "chunk_hash h c = k" and v: "v = g" by blast
        from c(1) have "c \<in> set ?cs" unfolding N using unseen_subset by blast
        then have "source c = v" unfolding v by (rule file_chunks_source)
        with c show ?thesis unfolding fr by auto
      qed
    next
      assume "\<exists>c \<in> set (unseen h (dom ?L1) (all_chunks s xs)). chunk_hash h c = k \<and> source c = v"
      then show ?thesis unfolding fr by auto
    qed
  qed
qed

lemma unseen_nth:
  "unseen h K cs =
     map ((!) cs) (filter (\<lambda>i. chunk_hash h (cs ! i) \<notin> K \<union> hashes h (take i cs)) [0..<length cs])"
proof (induction cs rule: rev_induct)
  case Nil show ?case by simp
next
  case (snoc x xs)
  let ?P = "\<lambda>cs i. chunk_hash h (cs ! i) \<notin> K \<union> hashes h (take i cs)"
  have same: "\<And>i. i \<in> set [0..<length xs] \<Longrightarrow> ?P (xs @ [x]) i = ?P xs i"
    by (simp add: nth_append)
  have f: "filter (?P (xs @ [x])) [0..<length xs] = filter (?P xs) [0..<length xs]"
    using same by (rule filter_cong[OF refl])
  have m: "map ((!) (xs @ [x])) (filter (?P xs) [0..<length xs])
             = map ((!) xs) (filter (?P xs) [0..<length xs])"
    by (rule map_cong[OF refl]) (simp add: nth_append)
  have last: "map ((!) (xs @ [x])) (filter (?P (xs @ [x])) [length xs])
             = unseen h (K \<union> hashes h xs) [x]"
    by simp
  have "map ((!) (xs @ [x])) (filter (?P (xs @ [x])) [0..<length (xs @ [x])])
          = map ((!) (xs @ [x])) (filter (?P (xs @ [x])) [0..<length xs])
            @ map ((!) (xs @ [x])) (filter (?P (xs @ [x])) [length xs])"
    by simp
  also have "\<dots> = unseen h K xs @ unseen h (K \<union> hashes h xs) [x]"
    unfolding f m last snoc.IH ..
  finally show ?case unfolding unseen_append ..
qed



lemma scan_files_no_unreadable:
  "scan_files h s xs L A = Inr r \<Longrightarrow> \<forall>f. (f, Unreadable) \<notin> set xs"
  using scan_files_unreadable[of _ xs h s L A] by auto

text \<open>The four ways a run can end.\<close>

lemma ingest_cases:
  obtains
    (load_failed) e where "scan_files h s listing (load_hash_db w) [] = Inl e"
      "ingest h s reply listing w = \<lparr>after = w, batches = [], outcome = Inl e\<rparr>"
  | (nothing_new) L' where "scan_files h s listing (load_hash_db w) [] = Inr (L', [])"
      "ingest h s reply listing w = \<lparr>after = w\<lparr>hashes_json := Some L'\<rparr>, batches = [], outcome = Inr 0\<rparr>"
  | (stored) L' A' where "scan_files h s listing (load_hash_db w) [] = Inr (L', A')" "A' \<noteq> []"
      "reply = Accepted"
      "ingest h s reply listing w =
         \<lparr>after = \<lparr>hashes_json = Some L', collection = collection w @ A'\<rparr>,
          batches = [A'], outcome = Inr (length A')\<rparr>"
  | (store_failed) L' A' k where "scan_files h s listing (load_hash_db w) [] = Inr (L', A')" "A' \<noteq> []"
      "reply = Failed k"
      "ingest h s reply listing w =
         \<lparr>after = w\<lparr>collection := collection w @ take k A'\<rparr>,
          batches = [A'], outcome = Inl StoreError\<rparr>"
proof (cases "scan_files h s listing (load_hash_db w) []")
  case (Inl e)
  then show ?thesis using load_failed by (simp add: ingest_def)
next
  case (Inr p)
  obtain L' A' where p: "p = (L', A')" by (cases p)
  show ?thesis
  proof (cases "A' = []")
    case True
    then show ?thesis using nothing_new Inr p by (simp add: ingest_def)
  next
    case False
    show ?thesis
    proof (cases reply)
      case Accepted
      then show ?thesis using stored Inr p False by (simp add: ingest_def add_documents_def)
    next
      case (Failed k)
      then show ?thesis using store_failed Inr p False by (simp add: ingest_def add_documents_def)
    qed
  qed
qed









lemma scan_files_error: "scan_files h s xs L A = Inl e \<Longrightarrow> e = LoadError"
proof (induction xs arbitrary: L A)
  case Nil then show ?case by simp
next
  case (Cons x xs)
  obtain g en where x: "x = (g, en)" by (cases x)
  show ?case
  proof (cases en)
    case NotAFile
    from Cons.prems have "scan_files h s xs L A = Inl e" unfolding x NotAFile scan_NotAFile .
    then show ?thesis by (rule Cons.IH)
  next
    case Unreadable
    with Cons.prems x show ?thesis by simp
  next
    case (TextFile t)
    from Cons.prems show ?thesis unfolding x TextFile scan_TextFile by (rule Cons.IH)
  qed
qed


lemma unseen_fresh_hashes: "hashes h (unseen h K cs) \<inter> K = {}"
proof (induction cs arbitrary: K)
  case Nil show ?case by simp
next
  case (Cons c cs)
  show ?case
  proof (cases "chunk_hash h c \<in> K")
    case True
    then show ?thesis using Cons.IH[of K] by simp
  next
    case False
    from Cons.IH[of "insert (chunk_hash h c) K"]
    have "hashes h (unseen h (insert (chunk_hash h c) K) cs) \<inter> K = {}" by blast
    then show ?thesis using False by simp
  qed
qed

lemma unseen_distinct: "distinct (map (chunk_hash h) (unseen h K cs))"
proof (induction cs arbitrary: K)
  case Nil show ?case by simp
next
  case (Cons c cs)
  show ?case
  proof (cases "chunk_hash h c \<in> K")
    case True
    then show ?thesis using Cons.IH[of K] by simp
  next
    case False
    have "chunk_hash h c \<notin> hashes h (unseen h (insert (chunk_hash h c) K) cs)"
      using unseen_fresh_hashes[of h "insert (chunk_hash h c) K" cs] by blast
    then show ?thesis using False Cons.IH[of "insert (chunk_hash h c) K"] by simp
  qed
qed

lemma distinct_texts: "distinct (map (chunk_hash h) cs) \<Longrightarrow> distinct (map page_content cs)"
proof (induction cs)
  case Nil show ?case by simp
next
  case (Cons c cs)
  then have "chunk_hash h c \<notin> hashes h cs" and "distinct (map page_content cs)" by simp_all
  moreover have "page_content c \<in> page_content ` set cs \<Longrightarrow> chunk_hash h c \<in> hashes h cs"
    by (auto simp: chunk_hash_def)
  ultimately show ?case by auto
qed

text \<open>What a run that read all its files hands to the store, and what it stores.\<close>

lemma ingest_marked:
  assumes "outcome (ingest h s reply listing w) \<noteq> Inl LoadError"
  shows "concat (batches (ingest h s reply listing w))
           = unseen h (dom (load_hash_db w)) (all_chunks s listing)"
    and "outcome (ingest h s reply listing w) = Inr n \<Longrightarrow>
           collection (after (ingest h s reply listing w))
             = collection w @ concat (batches (ingest h s reply listing w))
           \<and> n = length (concat (batches (ingest h s reply listing w)))"
proof -
  have marked: "\<And>L' A'. scan_files h s listing (load_hash_db w) [] = Inr (L', A')
      \<Longrightarrow> A' = unseen h (dom (load_hash_db w)) (all_chunks s listing)"
    using scan_files_docs by fastforce
  show "concat (batches (ingest h s reply listing w))
           = unseen h (dom (load_hash_db w)) (all_chunks s listing)"
  proof (cases rule: ingest_cases[of h s listing w reply])
    case (load_failed e)
    from scan_files_error[OF load_failed(1)] load_failed(2) assms show ?thesis by simp
  next
    case (nothing_new L')
    from marked[OF nothing_new(1)] show ?thesis unfolding nothing_new(2) by simp
  next
    case (stored L' A')
    from marked[OF stored(1)] show ?thesis unfolding stored(4) by simp
  next
    case (store_failed L' A' k)
    from marked[OF store_failed(1)] show ?thesis unfolding store_failed(4) by simp
  qed
  show "outcome (ingest h s reply listing w) = Inr n \<Longrightarrow>
           collection (after (ingest h s reply listing w))
             = collection w @ concat (batches (ingest h s reply listing w))
           \<and> n = length (concat (batches (ingest h s reply listing w)))"
  proof (cases rule: ingest_cases[of h s listing w reply])
    case (load_failed e)
    assume "outcome (ingest h s reply listing w) = Inr n"
    with load_failed(2) show ?thesis by simp
  next
    case (nothing_new L')
    assume "outcome (ingest h s reply listing w) = Inr n"
    then show ?thesis unfolding nothing_new(2) by simp
  next
    case (stored L' A')
    assume "outcome (ingest h s reply listing w) = Inr n"
    then show ?thesis unfolding stored(4) by auto
  next
    case (store_failed L' A' k)
    assume "outcome (ingest h s reply listing w) = Inr n"
    with store_failed(4) show ?thesis by simp
  qed
qed

text \<open>With a digest that separates the texts of the list, ``same digest'' is ``same text''.\<close>

lemma seen_digest_iff_seen_text:
  assumes "inj_on h (page_content ` set cs)" "i < length cs"
  shows "chunk_hash h (cs ! i) \<in> hashes h (take i cs)
           \<longleftrightarrow> page_content (cs ! i) \<in> page_content ` set (take i cs)"
proof
  assume "chunk_hash h (cs ! i) \<in> hashes h (take i cs)"
  then obtain c where c: "c \<in> set (take i cs)" and eq: "h (page_content (cs ! i)) = h (page_content c)"
    by (auto simp: chunk_hash_def)
  from c have "c \<in> set cs" by (rule in_set_takeD)
  moreover have "cs ! i \<in> set cs" using assms(2) by simp
  ultimately have "page_content (cs ! i) = page_content c"
    using assms(1) eq by (auto dest: inj_onD)
  with c show "page_content (cs ! i) \<in> page_content ` set (take i cs)" by auto
next
  assume "page_content (cs ! i) \<in> page_content ` set (take i cs)"
  then show "chunk_hash h (cs ! i) \<in> hashes h (take i cs)" by (auto simp: chunk_hash_def)
qed

lemma unseen_by_text:
  assumes "inj_on h (page_content ` set cs)"
  shows "unseen h K cs =
     map ((!) cs) (filter (\<lambda>i. chunk_hash h (cs ! i) \<notin> K
                               \<and> page_content (cs ! i) \<notin> page_content ` set (take i cs))
                    [0..<length cs])"
proof -
  have "filter (\<lambda>i. chunk_hash h (cs ! i) \<notin> K \<union> hashes h (take i cs)) [0..<length cs]
      = filter (\<lambda>i. chunk_hash h (cs ! i) \<notin> K
                               \<and> page_content (cs ! i) \<notin> page_content ` set (take i cs))
                    [0..<length cs]"
  proof (rule filter_cong[OF refl])
    fix i assume "i \<in> set [0..<length cs]"
    then have "i < length cs" by simp
    from seen_digest_iff_seen_text[OF assms this]
    show "(chunk_hash h (cs ! i) \<notin> K \<union> hashes h (take i cs))
        = (chunk_hash h (cs ! i) \<notin> K \<and> page_content (cs ! i) \<notin> page_content ` set (take i cs))"
      by blast
  qed
  then show ?thesis by (simp only: unseen_nth[of h K cs])
qed

lemma nth_filtered_mem:
  "i < length cs \<Longrightarrow> P i \<Longrightarrow> cs ! i \<in> set (map ((!) cs) (filter P [0..<length cs]))"
  by auto

section \<open>Lemmas about the query service\<close>

lemma rag_chain_invoke_events:
  "\<exists>rest. fst (rag_chain_invoke B q kw) = Search q # rest"
  by (auto simp: rag_chain_invoke_def Let_def split: sum.splits)

lemma sample_query:
  "query_api sample_backends q =
     ([Search q, Generate (prompt_format ''hello world'' q) []],
      Inr [(''question'', q), (''response'', ''bonjour'')])"
  by (simp add: query_api_def rag_chain_invoke_def sample_backends_def Let_def)

section \<open>Sample runs\<close>

text \<open>The model evaluated on the sample inputs, by rewriting with its definitions.\<close>

lemma sample_chunks:
  "file_chunks sample_split f ''hello world'' =
     [\<lparr>page_content = ''hello'', source = f\<rparr>, \<lparr>page_content = ''world'', source = f\<rparr>]"
  "file_chunks sample_split f ''hello there'' =
     [\<lparr>page_content = ''hello'', source = f\<rparr>, \<lparr>page_content = ''there'', source = f\<rparr>]"
  by (simp_all add: file_chunks_def split_documents_def sample_split_def)

lemmas sample_eval =
  ingest_def load_hash_db_def add_documents_def chunk_hash_def sample_md5hex_def
  sample_chunks Let_def

lemma run_sample_empty:
  "ingest sample_md5hex sample_split Accepted sample_listing empty_world =
     \<lparr>after = \<lparr>hashes_json = Some [''hello'' \<mapsto> ''a.txt'', ''world'' \<mapsto> ''a.txt'', ''there'' \<mapsto> ''b.txt''],
               collection = [\<lparr>page_content = ''hello'', source = ''a.txt''\<rparr>,
                             \<lparr>page_content = ''world'', source = ''a.txt''\<rparr>,
                             \<lparr>page_content = ''there'', source = ''b.txt''\<rparr>]\<rparr>,
      batches = [[\<lparr>page_content = ''hello'', source = ''a.txt''\<rparr>,
                  \<lparr>page_content = ''world'', source = ''a.txt''\<rparr>,
                  \<lparr>page_content = ''there'', source = ''b.txt''\<rparr>]],
      outcome = Inr 3\<rparr>"
  by (simp add: sample_eval sample_listing_def empty_world_def)

lemma run_sample_old:
  "ingest sample_md5hex sample_split Accepted sample_listing old_world =
     \<lparr>after = \<lparr>hashes_json = Some [''hello'' \<mapsto> ''old.txt'', ''world'' \<mapsto> ''a.txt'', ''there'' \<mapsto> ''b.txt''],
               collection = [\<lparr>page_content = ''hello'', source = ''old.txt''\<rparr>,
                             \<lparr>page_content = ''world'', source = ''a.txt''\<rparr>,
                             \<lparr>page_content = ''there'', source = ''b.txt''\<rparr>]\<rparr>,
      batches = [[\<lparr>page_content = ''world'', source = ''a.txt''\<rparr>,
                  \<lparr>page_content = ''there'', source = ''b.txt''\<rparr>]],
      outcome = Inr 2\<rparr>"
  by (simp add: sample_eval sample_listing_def old_world_def)

lemma run_sample_failed:
  "ingest sample_md5hex sample_split (Failed 1) sample_listing old_world =
     \<lparr>after = \<lparr>hashes_json = Some [''hello'' \<mapsto> ''old.txt''],
               collection = [\<lparr>page_content = ''hello'', source = ''old.txt''\<rparr>,
                             \<lparr>page_content = ''world'', source = ''a.txt''\<rparr>]\<rparr>,
      batches = [[\<lparr>page_content = ''world'', source = ''a.txt''\<rparr>,
                  \<lparr>page_content = ''there'', source = ''b.txt''\<rparr>]],
      outcome = Inl StoreError\<rparr>"
  by (simp add: sample_eval sample_listing_def old_world_def)


lemma run_broken:
  "ingest sample_md5hex sample_split Accepted broken_listing empty_world =
     \<lparr>after = empty_world, batches = [], outcome = Inl LoadError\<rparr>"
  by (simp add: sample_eval broken_listing_def)

lemma run_readable_only:
  "ingest sample_md5hex sample_split Accepted [(''a.txt'', TextFile ''hello world'')] empty_world =
     \<lparr>after = \<lparr>hashes_json = Some [''hello'' \<mapsto> ''a.txt'', ''world'' \<mapsto> ''a.txt''],
               collection = [\<lparr>page_content = ''hello'', source = ''a.txt''\<rparr>,
                             \<lparr>page_content = ''world'', source = ''a.txt''\<rparr>]\<rparr>,
      batches = [[\<lparr>page_content = ''hello'', source = ''a.txt''\<rparr>,
                  \<lparr>page_content = ''world'', source = ''a.txt''\<rparr>]],
      outcome = Inr 2\<rparr>"
  by (simp add: sample_eval empty_world_def)

lemma sample_all_chunks:
  "all_chunks sample_split sample_listing =
     [\<lparr>page_content = ''hello'', source = ''a.txt''\<rparr>, \<lparr>page_content = ''world'', source = ''a.txt''\<rparr>,
      \<lparr>page_content = ''hello'', source = ''b.txt''\<rparr>, \<lparr>page_content = ''there'', source = ''b.txt''\<rparr>]"
  by (simp add: sample_listing_def sample_chunks)

section \<open>Claims about the ingestion job\<close>

text \<open>
  C10. The hash ledger only grows. Whatever the directory holds and however the run
  ends, every digest-to-filename entry of the ledger the run loaded is still there,
  with the same filename, in the ledger on disk afterwards; and after a run that
  succeeded the file exists and its content extends the ledger loaded at the start.
\<close>

theorem ledger_only_grows:
  "(\<forall>k v. load_hash_db w k = Some v \<longrightarrow>
       load_hash_db (after (ingest md5hex split_text reply listing w)) k = Some v)
   \<and> (\<forall>n. outcome (ingest md5hex split_text reply listing w) = Inr n \<longrightarrow>
        (\<exists>db. hashes_json (after (ingest md5hex split_text reply listing w)) = Some db
            \<and> load_hash_db w \<subseteq>\<^sub>m db))"
proof (cases rule: ingest_cases[of md5hex split_text listing w reply])
  case (load_failed e)
  then show ?thesis by simp
next
  case (nothing_new L')
  from scan_files_docs[OF nothing_new(1)] have "load_hash_db w \<subseteq>\<^sub>m L'" by blast
  then show ?thesis unfolding nothing_new(2)
    by (auto simp: load_hash_db_def map_le_def dom_def)
next
  case (stored L' A')
  from scan_files_docs[OF stored(1)] have "load_hash_db w \<subseteq>\<^sub>m L'" by blast
  then show ?thesis unfolding stored(4)
    by (auto simp: load_hash_db_def map_le_def dom_def)
next
  case (store_failed L' A' k)
  then show ?thesis by (simp add: load_hash_db_def)
qed

text \<open>The entry of the file that has gone survives a run over the sample directory.\<close>

theorem ledger_only_grows_witness:
  "load_hash_db old_world ''hello'' = Some ''old.txt''
   \<and> load_hash_db (after (ingest sample_md5hex sample_split Accepted sample_listing old_world))
         ''hello'' = Some ''old.txt''
   \<and> outcome (ingest sample_md5hex sample_split Accepted sample_listing old_world) = Inr 2
   \<and> (\<exists>db. hashes_json (after (ingest sample_md5hex sample_split Accepted sample_listing old_world))
                = Some db \<and> load_hash_db old_world \<subseteq>\<^sub>m db)"
proof -
  have h1: "load_hash_db old_world ''hello'' = Some ''old.txt''"
    by (simp add: load_hash_db_def old_world_def)
  have h2: "outcome (ingest sample_md5hex sample_split Accepted sample_listing old_world) = Inr 2"
    by (simp add: run_sample_old)
  from ledger_only_grows[of old_world sample_md5hex sample_split Accepted sample_listing] h1 h2
  show ?thesis by blast
qed

text \<open>
  C1. A failed store write leaves the ledger file as it was. If the
  \<^verbatim>\<open>add_documents\<close> call raises, the run ends in error with \<^verbatim>\<open>hashes.json\<close> unchanged
  (it is written only after the call has returned). After any run, every entry of the
  ledger on disk is an entry the run loaded or the digest and filename of a document
  that is in the collection; so if every digest of the ledger had a stored document
  before the run, the same is true after it.
\<close>

theorem store_failure_keeps_ledger:
  "(outcome (ingest md5hex split_text reply listing w) = Inl StoreError \<longrightarrow>
      hashes_json (after (ingest md5hex split_text reply listing w)) = hashes_json w)
    \<and> (\<forall>k. reply = Failed k \<and> batches (ingest md5hex split_text reply listing w) \<noteq> [] \<longrightarrow>
          outcome (ingest md5hex split_text reply listing w) = Inl StoreError \<and> hashes_json (after (ingest md5hex split_text reply listing w)) = hashes_json w)
    \<and> (\<forall>h f. load_hash_db (after (ingest md5hex split_text reply listing w)) h = Some f \<longrightarrow>
          load_hash_db w h = Some f
          \<or> (\<exists>c \<in> set (collection (after (ingest md5hex split_text reply listing w))). chunk_hash md5hex c = h \<and> source c = f))
    \<and> ((\<forall>h \<in> dom (load_hash_db w). \<exists>c \<in> set (collection w). chunk_hash md5hex c = h) \<longrightarrow>
        (\<forall>h \<in> dom (load_hash_db (after (ingest md5hex split_text reply listing w))).
           \<exists>c \<in> set (collection (after (ingest md5hex split_text reply listing w))). chunk_hash md5hex c = h))"
proof (cases rule: ingest_cases[of md5hex split_text listing w reply])
  case (load_failed e)
  then show ?thesis by simp
next
  case (nothing_new L')
  from scan_files_docs[OF nothing_new(1)]
  have "dom L' = dom (load_hash_db w) \<union> hashes md5hex (all_chunks split_text listing)"
    and "[] = unseen md5hex (dom (load_hash_db w)) (all_chunks split_text listing)" by simp_all
  have ent: "\<And>h f. L' h = Some f \<Longrightarrow> load_hash_db w h = Some f"
    using scan_files_entries[OF nothing_new(1)]
      \<open>[] = unseen md5hex (dom (load_hash_db w)) (all_chunks split_text listing)\<close>
    by (metis empty_iff list.set(1))
  then have dom: "dom L' \<subseteq> dom (load_hash_db w)" by (auto simp: dom_def)
  show ?thesis unfolding nothing_new(2)
    using ent dom by (auto simp: load_hash_db_def)
next
  case (stored L' A')
  from scan_files_docs[OF stored(1)]
  have A': "A' = unseen md5hex (dom (load_hash_db w)) (all_chunks split_text listing)" by simp
  have ent: "\<And>h f. L' h = Some f \<Longrightarrow>
      load_hash_db w h = Some f \<or> (\<exists>c \<in> set A'. chunk_hash md5hex c = h \<and> source c = f)"
    using scan_files_entries[OF stored(1)] unfolding A' by blast
  have inv: "(\<forall>h \<in> dom (load_hash_db w). \<exists>c \<in> set (collection w). chunk_hash md5hex c = h) \<longrightarrow>
        (\<forall>h \<in> dom L'. \<exists>c \<in> set (collection w @ A'). chunk_hash md5hex c = h)"
  proof (intro impI ballI)
    fix h assume old: "\<forall>h \<in> dom (load_hash_db w). \<exists>c \<in> set (collection w). chunk_hash md5hex c = h"
      and "h \<in> dom L'"
    then obtain f where "L' h = Some f" by auto
    from ent[OF this] show "\<exists>c \<in> set (collection w @ A'). chunk_hash md5hex c = h"
      using old by (auto simp: dom_def)
  qed
  show ?thesis unfolding stored(4)
    using ent inv stored(3) by (auto simp: load_hash_db_def)
next
  case (store_failed L' A' k)
  show ?thesis unfolding store_failed(4)
    by (auto simp: load_hash_db_def)
qed

text \<open>A store that raises after one document: the ledger file is untouched, and its one digest still has its document.\<close>

theorem store_failure_keeps_ledger_witness:
  "batches (ingest sample_md5hex sample_split (Failed 1) sample_listing old_world) \<noteq> []
   \<and> outcome (ingest sample_md5hex sample_split (Failed 1) sample_listing old_world) = Inl StoreError
   \<and> hashes_json (after (ingest sample_md5hex sample_split (Failed 1) sample_listing old_world))
       = hashes_json old_world
   \<and> ''hello'' \<in> dom (load_hash_db
         (after (ingest sample_md5hex sample_split (Failed 1) sample_listing old_world)))
   \<and> (\<exists>c \<in> set (collection
           (after (ingest sample_md5hex sample_split (Failed 1) sample_listing old_world))).
         chunk_hash sample_md5hex c = ''hello'')"
proof -
  have h1: "batches (ingest sample_md5hex sample_split (Failed 1) sample_listing old_world) \<noteq> []"
    unfolding run_sample_failed by simp
  have h2: "\<forall>h \<in> dom (load_hash_db old_world). \<exists>c \<in> set (collection old_world). chunk_hash sample_md5hex c = h"
    by (simp add: load_hash_db_def old_world_def chunk_hash_def sample_md5hex_def)
  have h3: "''hello'' \<in> dom (load_hash_db
         (after (ingest sample_md5hex sample_split (Failed 1) sample_listing old_world)))"
    unfolding run_sample_failed by (simp add: load_hash_db_def)
  from store_failure_keeps_ledger[of sample_md5hex sample_split "Failed 1" sample_listing old_world]
    h1 h2 h3
  show ?thesis by blast
qed

text \<open>
  C2. Idempotence. After a run that succeeded, a second run over the same directory
  listing, starting from the world the first run left, marks no chunk, hands no batch
  to the store (whatever the store would have answered) and leaves the world as it is.
\<close>

theorem second_run_ingests_nothing:
  assumes "outcome (ingest md5hex split_text reply1 listing w) = Inr n"
  shows "ingest md5hex split_text reply2 listing (after (ingest md5hex split_text reply1 listing w))
           = \<lparr>after = after (ingest md5hex split_text reply1 listing w), batches = [],
              outcome = Inr 0\<rparr>"
proof -
  have known: "\<And>L' A' (w'::world). scan_files md5hex split_text listing (load_hash_db w) [] = Inr (L', A')
      \<Longrightarrow> hashes_json w' = Some L'
      \<Longrightarrow> ingest md5hex split_text reply2 listing w' = \<lparr>after = w', batches = [], outcome = Inr 0\<rparr>"
  proof -
    fix L' A' and w' :: world
    assume sc: "scan_files md5hex split_text listing (load_hash_db w) [] = Inr (L', A')"
      and w': "hashes_json w' = Some L'"
    from scan_files_docs[OF sc] have "hashes md5hex (all_chunks split_text listing) \<subseteq> dom L'" by blast
    moreover from scan_files_no_unreadable[OF sc] have "\<forall>f. (f, Unreadable) \<notin> set listing" .
    ultimately have "scan_files md5hex split_text listing L' [] = Inr (L', [])"
      by (rule scan_files_known)
    moreover have "load_hash_db w' = L'" using w' by (simp add: load_hash_db_def)
    moreover have "w'\<lparr>hashes_json := Some L'\<rparr> = w'" using w' by simp
    ultimately show "ingest md5hex split_text reply2 listing w' = \<lparr>after = w', batches = [], outcome = Inr 0\<rparr>"
      by (simp add: ingest_def)
  qed
  show ?thesis
  proof (cases rule: ingest_cases[of md5hex split_text listing w reply1])
    case (load_failed e)
    with assms show ?thesis by simp
  next
    case (nothing_new L')
    show ?thesis unfolding nothing_new(2) using known[OF nothing_new(1)] by simp
  next
    case (stored L' A')
    show ?thesis unfolding stored(4) using known[OF stored(1)] by simp
  next
    case (store_failed L' A' k)
    with assms show ?thesis by simp
  qed
qed

text \<open>The sample directory ingested twice; the second time even a store that would raise is never called.\<close>

theorem second_run_ingests_nothing_witness:
  "outcome (ingest sample_md5hex sample_split Accepted sample_listing empty_world) = Inr 3
   \<and> ingest sample_md5hex sample_split (Failed 0) sample_listing
         (after (ingest sample_md5hex sample_split Accepted sample_listing empty_world))
       = \<lparr>after = after (ingest sample_md5hex sample_split Accepted sample_listing empty_world),
          batches = [], outcome = Inr 0\<rparr>"
proof -
  have h: "outcome (ingest sample_md5hex sample_split Accepted sample_listing empty_world) = Inr 3"
    by (simp add: run_sample_empty)
  from h second_run_ingests_nothing[OF h, of "Failed 0"] show ?thesis by (rule conjI)
qed

text \<open>
  C8, as the code has it. A file that cannot be read ends the whole run: no batch is
  handed to the store, and the ledger file and the collection are left as they were.
\<close>

theorem unreadable_file_aborts_run:
  assumes "(filename, Unreadable) \<in> set listing"
  shows "ingest md5hex split_text reply listing w = \<lparr>after = w, batches = [], outcome = Inl LoadError\<rparr>"
  using scan_files_unreadable[OF assms] by (simp add: ingest_def)

text \<open>The directory whose first file cannot be read.\<close>

theorem unreadable_file_aborts_run_witness:
  "(''bad.txt'', Unreadable) \<in> set broken_listing
   \<and> ingest sample_md5hex sample_split Accepted broken_listing old_world
       = \<lparr>after = old_world, batches = [], outcome = Inl LoadError\<rparr>"
proof -
  have h: "(''bad.txt'', Unreadable) \<in> set broken_listing" by (simp add: broken_listing_def)
  from h unreadable_file_aborts_run[OF h, of sample_md5hex sample_split Accepted old_world]
  show ?thesis by (rule conjI)
qed

text \<open>The readable file next to the unreadable one is neither stored nor entered in the ledger, although a run over it alone stores its two chunks: the failure is not confined to the one file.\<close>

theorem unreadable_file_counterexample:
  "ingest sample_md5hex sample_split Accepted broken_listing empty_world
     = \<lparr>after = empty_world, batches = [], outcome = Inl LoadError\<rparr>
   \<and> ingest sample_md5hex sample_split Accepted [(''a.txt'', TextFile ''hello world'')] empty_world
     = \<lparr>after = \<lparr>hashes_json = Some [''hello'' \<mapsto> ''a.txt'', ''world'' \<mapsto> ''a.txt''],
                   collection = [\<lparr>page_content = ''hello'', source = ''a.txt''\<rparr>,
                                 \<lparr>page_content = ''world'', source = ''a.txt''\<rparr>]\<rparr>,
          batches = [[\<lparr>page_content = ''hello'', source = ''a.txt''\<rparr>,
                      \<lparr>page_content = ''world'', source = ''a.txt''\<rparr>]],
          outcome = Inr 2\<rparr>
   \<and> after (ingest sample_md5hex sample_split Accepted broken_listing empty_world)
       \<noteq> after (ingest sample_md5hex sample_split Accepted [(''a.txt'', TextFile ''hello world'')] empty_world)"
  unfolding run_broken run_readable_only by (simp add: empty_world_def)

text \<open>
  C9, as the code has it. Number the chunks of all files of a run in the order the
  loops meet them, and let the digest separate the texts of these chunks. Then the
  chunks handed to the store are exactly those whose text has not occurred at an
  earlier position and whose digest is not a key of the ledger loaded at the start.
  So no two marked chunks share a text, every occurrence of a text after the first is
  skipped, and the first occurrence is marked when its digest is not yet in the loaded
  ledger (when it is, no chunk of that text is marked). After a successful run the
  collection is the old one followed by the marked chunks, whose number is the count
  reported.
\<close>

theorem first_occurrence_marked:
  assumes "outcome (ingest md5hex split_text reply listing w) \<noteq> Inl LoadError"
    and "inj_on md5hex (page_content ` set (all_chunks split_text listing))"
  shows "concat (batches (ingest md5hex split_text reply listing w))
           = map ((!) (all_chunks split_text listing))
               (filter (\<lambda>i. chunk_hash md5hex (all_chunks split_text listing ! i)
                                \<notin> dom (load_hash_db w)
                              \<and> page_content (all_chunks split_text listing ! i)
                                \<notin> page_content ` set (take i (all_chunks split_text listing)))
                  [0..<length (all_chunks split_text listing)])
    \<and> distinct (map page_content (concat (batches (ingest md5hex split_text reply listing w))))
    \<and> (\<forall>i < length (all_chunks split_text listing).
          chunk_hash md5hex (all_chunks split_text listing ! i) \<notin> dom (load_hash_db w) \<longrightarrow>
          page_content (all_chunks split_text listing ! i)
            \<notin> page_content ` set (take i (all_chunks split_text listing)) \<longrightarrow>
          all_chunks split_text listing ! i
            \<in> set (concat (batches (ingest md5hex split_text reply listing w))))
    \<and> (\<forall>n. outcome (ingest md5hex split_text reply listing w) = Inr n \<longrightarrow>
          collection (after (ingest md5hex split_text reply listing w))
            = collection w @ concat (batches (ingest md5hex split_text reply listing w))
          \<and> n = length (concat (batches (ingest md5hex split_text reply listing w))))"
proof -
  let ?cs = "all_chunks split_text listing"
  let ?r = "ingest md5hex split_text reply listing w"
  let ?P = "\<lambda>i. chunk_hash md5hex (?cs ! i) \<notin> dom (load_hash_db w)
                 \<and> page_content (?cs ! i) \<notin> page_content ` set (take i ?cs)"
  have b: "concat (batches ?r) = unseen md5hex (dom (load_hash_db w)) ?cs"
    using assms(1) by (rule ingest_marked(1))
  have sel: "concat (batches ?r) = map ((!) ?cs) (filter ?P [0..<length ?cs])"
    unfolding b using assms(2) by (rule unseen_by_text)
  have dist: "distinct (map page_content (concat (batches ?r)))"
    unfolding b using unseen_distinct by (rule distinct_texts)
  have first: "\<forall>i < length ?cs.
          chunk_hash md5hex (?cs ! i) \<notin> dom (load_hash_db w) \<longrightarrow>
          page_content (?cs ! i) \<notin> page_content ` set (take i ?cs) \<longrightarrow>
          ?cs ! i \<in> set (concat (batches ?r))"
  proof (intro allI impI)
    fix i assume "i < length ?cs"
      and "chunk_hash md5hex (?cs ! i) \<notin> dom (load_hash_db w)"
      and "page_content (?cs ! i) \<notin> page_content ` set (take i ?cs)"
    then have "i < length ?cs" "?P i" by simp_all
    then have "?cs ! i \<in> set (map ((!) ?cs) (filter ?P [0..<length ?cs]))"
      by (rule nth_filtered_mem)
    then show "?cs ! i \<in> set (concat (batches ?r))" unfolding sel .
  qed
  have stored: "\<forall>n. outcome ?r = Inr n \<longrightarrow>
          collection (after ?r) = collection w @ concat (batches ?r)
          \<and> n = length (concat (batches ?r))"
    using ingest_marked(2)[OF assms(1)] by blast
  from sel dist first stored show ?thesis by (intro conjI)
qed

text \<open>
  The sample directory over an empty world: the text \<^verbatim>\<open>hello\<close> occurs in both files; its
  first occurrence is marked and stored, the second is skipped because the first run of
  the loop has entered its digest in the ledger.
\<close>

theorem first_occurrence_marked_witness:
  "outcome (ingest sample_md5hex sample_split Accepted sample_listing empty_world) \<noteq> Inl LoadError
   \<and> inj_on sample_md5hex (page_content ` set (all_chunks sample_split sample_listing))
   \<and> concat (batches (ingest sample_md5hex sample_split Accepted sample_listing empty_world))
       = [\<lparr>page_content = ''hello'', source = ''a.txt''\<rparr>,
          \<lparr>page_content = ''world'', source = ''a.txt''\<rparr>,
          \<lparr>page_content = ''there'', source = ''b.txt''\<rparr>]
   \<and> collection (after (ingest sample_md5hex sample_split Accepted sample_listing empty_world))
       = collection empty_world
         @ concat (batches (ingest sample_md5hex sample_split Accepted sample_listing empty_world))
   \<and> all_chunks sample_split sample_listing ! 0
       \<in> set (concat (batches (ingest sample_md5hex sample_split Accepted sample_listing empty_world)))"
proof -
  let ?r = "ingest sample_md5hex sample_split Accepted sample_listing empty_world"
  let ?cs = "all_chunks sample_split sample_listing"
  have h: "outcome ?r \<noteq> Inl LoadError" by (simp add: run_sample_empty)
  have ok: "outcome ?r = Inr 3" by (simp add: run_sample_empty)
  have inj: "inj_on sample_md5hex (page_content ` set ?cs)"
    by (simp add: inj_on_def sample_md5hex_def)
  note inst = first_occurrence_marked[OF h inj]
  have "concat (batches ?r)
          = map ((!) ?cs)
              (filter (\<lambda>i. chunk_hash sample_md5hex (?cs ! i) \<notin> dom (load_hash_db empty_world)
                            \<and> page_content (?cs ! i) \<notin> page_content ` set (take i ?cs))
                 [0..<length ?cs])"
    using inst by blast
  also have "\<dots> = [\<lparr>page_content = ''hello'', source = ''a.txt''\<rparr>,
                     \<lparr>page_content = ''world'', source = ''a.txt''\<rparr>,
                     \<lparr>page_content = ''there'', source = ''b.txt''\<rparr>]"
    by (simp add: sample_all_chunks load_hash_db_def empty_world_def chunk_hash_def sample_md5hex_def)
  finally have b: "concat (batches ?r)
       = [\<lparr>page_content = ''hello'', source = ''a.txt''\<rparr>,
          \<lparr>page_content = ''world'', source = ''a.txt''\<rparr>,
          \<lparr>page_content = ''there'', source = ''b.txt''\<rparr>]" .
  have st: "collection (after ?r) = collection empty_world @ concat (batches ?r)"
    using inst ok by blast
  have i0: "(0::nat) < length ?cs"
    "chunk_hash sample_md5hex (?cs ! 0) \<notin> dom (load_hash_db empty_world)"
    "page_content (?cs ! 0) \<notin> page_content ` set (take 0 ?cs)"
    by (simp_all add: sample_all_chunks load_hash_db_def empty_world_def)
  have first: "?cs ! 0 \<in> set (concat (batches ?r))" using inst i0 by blast
  from h inj b st first show ?thesis by (intro conjI)
qed

text \<open>
  The same directory over the ledger of an earlier run that holds the digest of
  \<^verbatim>\<open>hello\<close>: the first occurrence of that text in the run is neither handed to the store
  nor in the collection afterwards.
\<close>

theorem first_occurrence_counterexample:
  "all_chunks sample_split sample_listing ! 0 = \<lparr>page_content = ''hello'', source = ''a.txt''\<rparr>
   \<and> page_content (all_chunks sample_split sample_listing ! 0)
       \<notin> page_content ` set (take 0 (all_chunks sample_split sample_listing))
   \<and> outcome (ingest sample_md5hex sample_split Accepted sample_listing old_world) = Inr 2
   \<and> concat (batches (ingest sample_md5hex sample_split Accepted sample_listing old_world))
       = [\<lparr>page_content = ''world'', source = ''a.txt''\<rparr>,
          \<lparr>page_content = ''there'', source = ''b.txt''\<rparr>]
   \<and> all_chunks sample_split sample_listing ! 0
       \<notin> set (concat (batches (ingest sample_md5hex sample_split Accepted sample_listing old_world)))
   \<and> all_chunks sample_split sample_listing ! 0
       \<notin> set (collection (after (ingest sample_md5hex sample_split Accepted sample_listing old_world)))"
  unfolding run_sample_old by (simp add: sample_all_chunks)




section \<open>Claims about the query service\<close>

text \<open>
  C6. A request that is answered successfully returns an object with the two fields
  \<^verbatim>\<open>question\<close> and \<^verbatim>\<open>response\<close>, in this order and no other: the first holds the
  \<open>q\<close> of the request unchanged, the second the text the language model returned for
  the prompt built from the retrieved documents and \<open>q\<close>, unchanged.
\<close>

theorem query_response_fields:
  assumes "get_query B (Some q) = (evs, Ok200 body)"
  shows "\<exists>docs text. retriever B q = Inr docs
           \<and> llm B (prompt_format (str_docs B docs) q) [] = Inr text
           \<and> body = [(''question'', q), (''response'', text)]
           \<and> map fst body = [''question'', ''response'']"
  using assms
  by (auto simp: get_query_def query_api_def rag_chain_invoke_def Let_def
           split: sum.splits prod.splits)

text \<open>The question \<^verbatim>\<open>hello\<close> against the sample backends.\<close>

theorem query_response_fields_witness:
  "get_query sample_backends (Some ''hello'')
     = ([Search ''hello'', Generate (prompt_format ''hello world'' ''hello'') []],
        Ok200 [(''question'', ''hello''), (''response'', ''bonjour'')])
   \<and> (\<exists>docs text. retriever sample_backends ''hello'' = Inr docs
         \<and> llm sample_backends (prompt_format (str_docs sample_backends docs) ''hello'') [] = Inr text
         \<and> [(''question'', ''hello''), (''response'', ''bonjour'')]
             = [(''question'', ''hello''), (''response'', text)]
         \<and> map fst [(''question'', ''hello''), (''response'', ''bonjour'')]
             = [''question'', ''response''])"
proof -
  have h: "get_query sample_backends (Some ''hello'')
     = ([Search ''hello'', Generate (prompt_format ''hello world'' ''hello'') []],
        Ok200 [(''question'', ''hello''), (''response'', ''bonjour'')])"
    by (simp add: get_query_def sample_query)
  from h query_response_fields[OF h] show ?thesis by (rule conjI)
qed

text \<open>
  C4, as the code has it. A request without the parameter \<open>q\<close> is answered 422 with
  no call to the retriever or the model. A request that carries a \<open>q\<close>, the empty
  string included, is not rejected: the handler runs, and its first act is the
  similarity search for that \<open>q\<close>.
\<close>

theorem missing_q_rejected:
  "get_query B None = ([], Unprocessable422)
   \<and> (\<exists>rest r. get_query B (Some q) = (Search q # rest, r) \<and> r \<noteq> Unprocessable422)"
proof -
  obtain rest where r: "fst (rag_chain_invoke B q [(''max_tokens'', 200)]) = Search q # rest"
    using rag_chain_invoke_events by blast
  obtain res where p: "rag_chain_invoke B q [(''max_tokens'', 200)] = (Search q # rest, res)"
    using r by (cases "rag_chain_invoke B q [(''max_tokens'', 200)]") simp
  show ?thesis
    by (cases res) (simp_all add: get_query_def query_api_def p)
qed

text \<open>
  The request \<^verbatim>\<open>GET /query?q=\<close>: the empty question is searched, sent to the model and
  answered 200.
\<close>

theorem empty_q_counterexample:
  "get_query sample_backends (Some '''')
     = ([Search '''', Generate (prompt_format ''hello world'' '''') []],
        Ok200 [(''question'', ''''), (''response'', ''bonjour'')])"
  by (simp add: get_query_def sample_query)

text \<open>
  C7. What the code does with the bound: the handler passes \<^verbatim>\<open>max_tokens=200\<close> to
  \<^verbatim>\<open>rag_chain.invoke\<close>, and the call that reaches the language model carries no
  keyword argument at all. Here for the request \<^verbatim>\<open>GET /query?q=hello\<close>.
\<close>

theorem generation_call_unbounded:
  "fst (get_query sample_backends (Some ''hello''))
     = [Search ''hello'', Generate (prompt_format ''hello world'' ''hello'') []]"
  by (simp add: get_query_def sample_query)

end
